theory Spec2Isabelle
  imports Main "HOL-Library.Sublist"
begin

section \<open>Python strings\<close>

text \<open>
  A Python \<open>str\<close> is modelled as a \<open>string\<close>, each \<open>char\<close> standing for the code point of
  the same number (U+0000 to U+00FF), so that \<open>length\<close> is Python's \<open>len\<close>. On these code
  points \<open>str.strip()\<close> and the regular-expression classes \<open>\s\<close>, \<open>\S\<close> treat exactly the
  twelve characters of \<open>is_space\<close> as whitespace, and \<open>\d\<close> matches exactly the ten ASCII
  digits.
\<close>

definition is_space :: "char \<Rightarrow> bool" where
  "is_space c \<longleftrightarrow> c \<in> set [CHR 0x09, CHR 0x0A, CHR 0x0B, CHR 0x0C, CHR 0x0D,
     CHR 0x1C, CHR 0x1D, CHR 0x1E, CHR 0x1F, CHR 0x20, CHR 0x85, CHR 0xA0]"

definition is_digit :: "char \<Rightarrow> bool" where
  "is_digit c \<longleftrightarrow> c \<in> set ''0123456789''"

definition nl :: char where
  "nl = CHR 0x0A"

definition tab :: char where
  "tab = CHR 0x09"

text \<open>\<open>s.strip(chars)\<close>: the characters of the class are removed from both ends.\<close>

definition strip_chars :: "(char \<Rightarrow> bool) \<Rightarrow> string \<Rightarrow> string" where
  "strip_chars p s = rev (dropWhile p (rev (dropWhile p s)))"

definition py_strip :: "string \<Rightarrow> string" where
  "py_strip s = strip_chars is_space s"

text \<open>\<open>s.split(sep)\<close> for a one-character separator: never empty, \<open>''''.split(sep) = ['''']\<close>.\<close>

fun split_on :: "char \<Rightarrow> string \<Rightarrow> string list" where
  "split_on sep [] = [[]]"
| "split_on sep (c # cs) =
     (if c = sep then [] # split_on sep cs
      else (case split_on sep cs of
              [] \<Rightarrow> [[c]]
            | x # xs \<Rightarrow> (c # x) # xs))"

text \<open>\<open>s.split(sep, 1)\<close>: at most one split, at the first separator.\<close>

definition split_once :: "char \<Rightarrow> string \<Rightarrow> string list" where
  "split_once sep s =
     (if sep \<in> set s
      then [takeWhile (\<lambda>c. c \<noteq> sep) s, tl (dropWhile (\<lambda>c. c \<noteq> sep) s)]
      else [s])"

definition startswith :: "string \<Rightarrow> string \<Rightarrow> bool" where
  "startswith s p \<longleftrightarrow> take (length p) s = p"

definition endswith :: "string \<Rightarrow> string \<Rightarrow> bool" where
  "endswith s p \<longleftrightarrow> length p \<le> length s \<and> drop (length s - length p) s = p"

text \<open>\<open>sep.join(xs)\<close>.\<close>

fun join :: "string \<Rightarrow> string list \<Rightarrow> string" where
  "join sep [] = []"
| "join sep [x] = x"
| "join sep (x # y # ys) = x @ sep @ join sep (y # ys)"

text \<open>Decimal rendering of a non-negative integer, as an f-string does.\<close>

fun string_of_nat :: "nat \<Rightarrow> string" where
  "string_of_nat n =
     (if n < 10 then [''0123456789'' ! n]
      else string_of_nat (n div 10) @ [''0123456789'' ! (n mod 10)])"

declare string_of_nat.simps [simp del]

section \<open>The regular expressions of the source\<close>

text \<open>
  Every pattern of the source is a fixed sequence of character classes, possibly followed
  by a greedy run of one class. \<open>match_seq\<close> matches such a sequence at the start of a string
  and returns what follows the match.
\<close>

fun match_seq :: "(char \<Rightarrow> bool) list \<Rightarrow> string \<Rightarrow> string option" where
  "match_seq [] s = Some s"
| "match_seq (p # ps) [] = None"
| "match_seq (p # ps) (c # cs) = (if p c then match_seq ps cs else None)"

definition lit :: "string \<Rightarrow> (char \<Rightarrow> bool) list" where
  "lit s = map (\<lambda>a c. c = a) s"

text \<open>\<open>\d{2}:\d{2}:\d{2}\.\d{3}\<close>\<close>

definition hms :: "(char \<Rightarrow> bool) list" where
  "hms = [is_digit, is_digit] @ lit '':'' @ [is_digit, is_digit] @ lit '':''
       @ [is_digit, is_digit] @ lit ''.'' @ [is_digit, is_digit, is_digit]"

text \<open>\<open>re.match(r"^\d{2}:\d{2}:\d{2}\.\d{3}\s*-->", line)\<close>\<close>

definition is_timestamp_line :: "string \<Rightarrow> bool" where
  "is_timestamp_line line =
     (case match_seq hms line of
        None \<Rightarrow> False
      | Some r \<Rightarrow> startswith (dropWhile is_space r) ''-->'')"

text \<open>\<open><\d{2}:\d{2}:\d{2}\.\d{3}>\<close>\<close>

definition match_timing_tag :: "string \<Rightarrow> string option" where
  "match_timing_tag s = match_seq (lit ''<'' @ hms @ lit ''>'') s"

text \<open>\<open></?c>\<close>: the optional slash is tried first.\<close>

definition match_c_tag :: "string \<Rightarrow> string option" where
  "match_c_tag s =
     (case match_seq (lit ''</c>'') s of
        Some r \<Rightarrow> Some r
      | None \<Rightarrow> match_seq (lit ''<c>'') s)"

text \<open>\<open>align:\S+\<close> and \<open>position:\S+\<close>: the keyword, then a greedy run of at least one
  non-whitespace character.\<close>

definition match_token :: "string \<Rightarrow> string \<Rightarrow> string option" where
  "match_token kw s =
     (case match_seq (lit kw) s of
        None \<Rightarrow> None
      | Some r \<Rightarrow>
          (case r of
             [] \<Rightarrow> None
           | c # _ \<Rightarrow> if is_space c then None else Some (dropWhile (\<lambda>c. \<not> is_space c) r)))"

text \<open>
  \<open>re.sub(pattern, "", s)\<close>: the string is scanned from the left; where the pattern matches,
  the match is dropped and the scan goes on behind it, elsewhere the character is kept. The
  text already scanned is never looked at again. A match that consumes nothing leaves the
  character in place, as \<open>re.sub\<close> does.
\<close>

function re_sub_del :: "(string \<Rightarrow> string option) \<Rightarrow> string \<Rightarrow> string" where
  "re_sub_del m [] = []"
| "re_sub_del m (c # cs) =
     (case m (c # cs) of
        None \<Rightarrow> c # re_sub_del m cs
      | Some r \<Rightarrow> if length r \<le> length cs then re_sub_del m r else c # re_sub_del m cs)"
  by pat_completeness auto
termination
  by (relation "measure (\<lambda>(m, s). length s)") auto

section \<open>The caption normalizer\<close>

text \<open>The four substitutions and the final \<open>strip()\<close> applied to a candidate text line.\<close>

definition strip_markup :: "string \<Rightarrow> string" where
  "strip_markup line =
     (let text = re_sub_del match_timing_tag line;
          text = re_sub_del match_c_tag text;
          text = re_sub_del (match_token ''align:'') text;
          text = re_sub_del (match_token ''position:'') text
      in py_strip text)"

text \<open>The lines the loop skips before looking at their text.\<close>

definition skipped :: "string \<Rightarrow> bool" where
  "skipped line \<longleftrightarrow>
     startswith line ''WEBVTT''
     \<or> startswith line ''Kind:'' \<or> startswith line ''Language:''
     \<or> is_timestamp_line line
     \<or> py_strip line = []"

text \<open>The loop of \<open>clean_vtt\<close>, over the lines still to read, with the variables \<open>seen\<close>
  and \<open>cleaned\<close>.\<close>

fun clean_loop :: "string list \<Rightarrow> string set \<Rightarrow> string list \<Rightarrow> string list" where
  "clean_loop [] seen cleaned = cleaned"
| "clean_loop (line # lines) seen cleaned =
     (if skipped line then clean_loop lines seen cleaned
      else let text = strip_markup line in
        if text = [] then clean_loop lines seen cleaned
        else if text \<notin> seen then clean_loop lines (insert text seen) (cleaned @ [text])
        else clean_loop lines seen cleaned)"

definition clean_lines :: "string \<Rightarrow> string list" where
  "clean_lines vtt_text = clean_loop (split_on nl vtt_text) {} []"

definition clean_vtt :: "string \<Rightarrow> string" where
  "clean_vtt vtt_text = join '' '' (clean_lines vtt_text)"

section \<open>File names\<close>

text \<open>The character class \<open>[<>:"/\\|?*]\<close>.\<close>

definition forbidden :: "char set" where
  "forbidden = set (''<>:'' @ [CHR 0x22] @ ''/'' @ [CHR 0x5C] @ ''|?*'')"

definition sanitize_filename :: "string \<Rightarrow> string" where
  "sanitize_filename title =
     (let safe = filter (\<lambda>c. c \<notin> forbidden) title;
          safe = strip_chars (\<lambda>c. c \<in> set ''. '') safe
      in if safe \<noteq> [] then take 200 safe else ''untitled'')"

section \<open>The world the program runs in\<close>

text \<open>
  The scratch directory is the list of its entries (file name, content) in the order
  \<open>os.listdir\<close> reports them. The individual transcript files of the output directory are a
  map from file name to content. The combined file, the manifest, the scratch directory and
  the individual files are taken to be different file-system objects. The manifest is kept
  as the dictionary handed to \<open>json.dump\<close>. Console output on standard output and the pacing
  delay change nothing a later step reads and are left out.
\<close>

type_synonym video = "string \<times> string"

type_synonym scratch_dir = "(string \<times> string) list"

record video_entry =
  entry_id :: string
  entry_title :: string
  has_transcript :: bool

record manifest =
  manifest_channel_url :: string
  manifest_channel_name :: string
  download_date :: string
  total_videos :: nat
  transcripts_downloaded :: nat
  transcripts_failed :: nat
  videos :: "video_entry list"

record world =
  output_dir_exists :: bool
  temp_dir_exists :: bool
  scratch :: scratch_dir
  individual :: "string \<rightharpoonup> string"
  combined :: "string option"
  manifest_file :: "manifest option"
  stderr_text :: string

text \<open>What \<open>subprocess.run\<close> hands back for the listing call.\<close>

record proc_result =
  returncode :: int
  stdout :: string
  stderr :: string

datatype 'a run_outcome = Returned 'a | TimeoutExpired

text \<open>
  The caption download touches the scratch directory only. Its outcome is the directory as
  the tool left it, either when it exited or when the timeout of 120 seconds fired.
\<close>

datatype fetch_outcome = Exited scratch_dir | TimedOut scratch_dir

text \<open>
  The file operations that \<open>main\<close> performs outside any \<open>try\<close>: creating the output and
  the scratch directory, opening the combined file, reading the located caption file (by
  position in the batch and file name), opening an individual file (by position in the
  batch and file name), opening the manifest. Each of them can raise, for instance
  \<open>OSError\<close> for a file name longer than the file system allows or \<open>UnicodeDecodeError\<close>
  for a caption file that is not UTF-8. An operation that raises has no effect of its own;
  the exception is not caught, so the run ends there with exit status 1. Removing scratch
  files and writing to a file that is open are taken to succeed.
\<close>

datatype file_op =
    MakeOutputDir
  | MakeTempDir
  | OpenCombined
  | ReadCaption nat string
  | OpenIndividual nat string
  | OpenManifest

text \<open>
  The external collaborators of one run: the listing call by channel URL, the caption call
  by position in the batch, video id and scratch directory, which file operations raise,
  and the two readings of the clock.
\<close>

record env =
  list_channel :: "string \<Rightarrow> proc_result run_outcome"
  fetch_caption :: "nat \<Rightarrow> string \<Rightarrow> scratch_dir \<Rightarrow> fetch_outcome"
  raises :: "file_op \<Rightarrow> bool"
  header_time :: string
  manifest_time :: string

record args =
  channel_url :: string
  output_dir :: string
  combined_file :: string
  channel_name :: "string option"

datatype error = SystemExit int | UncaughtTimeout

section \<open>The channel enumerator\<close>

definition parse_line :: "string \<Rightarrow> video list" where
  "parse_line line0 =
     (let line = py_strip line0 in
      if line = [] then []
      else (case split_once tab line of
              [video_id, title] \<Rightarrow> [(py_strip video_id, py_strip title)]
            | _ \<Rightarrow> []))"

definition parse_listing :: "string \<Rightarrow> video list" where
  "parse_listing out = concat (map parse_line (split_on nl (py_strip out)))"

text \<open>A timeout of the listing call is not caught by the source; the traceback the
  interpreter prints for it is not modelled.\<close>

definition get_all_videos :: "proc_result run_outcome \<Rightarrow> world \<Rightarrow> (error + video list) \<times> world" where
  "get_all_videos r w =
     (case r of
        TimeoutExpired \<Rightarrow> (Inl UncaughtTimeout, w)
      | Returned result \<Rightarrow>
          if returncode result \<noteq> 0
          then (Inl (SystemExit 1),
                w\<lparr>stderr_text := stderr_text w @ ''[ERROR] Failed to list channel videos:''
                   @ [nl] @ stderr result @ [nl]\<rparr>)
          else (Inr (parse_listing (stdout result)), w))"

section \<open>The caption retriever\<close>

definition SUBTITLE_LANG :: string where
  "SUBTITLE_LANG = ''en''"

text \<open>The caption file the retriever settles on: the two expected names in order, then the
  first entry of the directory that starts with the video id and ends in \<open>.vtt\<close>.\<close>

definition find_vtt :: "string \<Rightarrow> scratch_dir \<Rightarrow> (string \<times> string) option" where
  "find_vtt video_id dir =
     (case List.find (\<lambda>(f, _). f = video_id @ ''.'' @ SUBTITLE_LANG @ ''.vtt'') dir of
        Some e \<Rightarrow> Some e
      | None \<Rightarrow>
     (case List.find (\<lambda>(f, _). f = video_id @ ''.'' @ SUBTITLE_LANG @ ''-orig.vtt'') dir of
        Some e \<Rightarrow> Some e
      | None \<Rightarrow> List.find (\<lambda>(f, _). startswith f video_id \<and> endswith f ''.vtt'') dir))"

definition download_subtitle ::
  "(string \<Rightarrow> scratch_dir \<Rightarrow> fetch_outcome) \<Rightarrow> string \<Rightarrow> scratch_dir
     \<Rightarrow> string option \<times> scratch_dir" where
  "download_subtitle tool video_id temp_dir =
     (case tool video_id temp_dir of
        TimedOut dir \<Rightarrow> (None, dir)
      | Exited dir \<Rightarrow>
          (case find_vtt video_id dir of
             None \<Rightarrow> (None, dir)
           | Some (vtt_path, vtt_content) \<Rightarrow>
               (Some (clean_vtt vtt_content),
                filter (\<lambda>(f, _). \<not> startswith f video_id) dir)))"

text \<open>
  \<open>download_subtitle\<close> above is the call that returns. The call raises instead when the
  tool has exited, a caption file is located and reading it raises; the scratch directory
  is then as the tool left it, since the cleanup comes after the read.
\<close>

definition caption_read_fault :: "env \<Rightarrow> nat \<Rightarrow> string \<Rightarrow> scratch_dir \<Rightarrow> scratch_dir option" where
  "caption_read_fault e idx video_id temp_dir =
     (case fetch_caption e idx video_id temp_dir of
        TimedOut dir \<Rightarrow> None
      | Exited dir \<Rightarrow>
          (case find_vtt video_id dir of
             None \<Rightarrow> None
           | Some (vtt_path, vtt_content) \<Rightarrow>
               if raises e (ReadCaption idx vtt_path) then Some dir else None))"

section \<open>The batch orchestrator\<close>

record progress =
  success_count :: nat
  fail_count :: nat
  failed_videos :: "video list"

definition rule80 :: string where
  "rule80 = replicate 80 (CHR ''='')"

definition video_url :: "string \<Rightarrow> string" where
  "video_url video_id = ''https://www.youtube.com/watch?v='' @ video_id"

definition header_text :: "string \<Rightarrow> nat \<Rightarrow> string \<Rightarrow> string \<Rightarrow> string" where
  "header_text name count time url =
     ''# '' @ name @ '' - Complete YouTube Channel Transcripts'' @ [nl]
     @ ''# Total videos found: '' @ string_of_nat count @ [nl]
     @ ''# Downloaded: '' @ time @ [nl]
     @ ''# Source: '' @ url @ [nl, nl]"

definition individual_name :: "video \<Rightarrow> string" where
  "individual_name v = sanitize_filename (snd v) @ '' ['' @ fst v @ ''].txt''"

definition individual_text :: "video \<Rightarrow> string \<Rightarrow> string" where
  "individual_text v transcript =
     ''Title: '' @ snd v @ [nl]
     @ ''Video ID: '' @ fst v @ [nl]
     @ ''URL: '' @ video_url (fst v) @ [nl]
     @ rule80 @ [nl, nl]
     @ transcript"

definition section_text :: "video \<Rightarrow> string \<Rightarrow> string" where
  "section_text v transcript =
     [nl, nl] @ rule80 @ [nl]
     @ ''TITLE: '' @ snd v @ [nl]
     @ ''VIDEO ID: '' @ fst v @ [nl]
     @ ''URL: '' @ video_url (fst v) @ [nl]
     @ rule80 @ [nl, nl]
     @ transcript"

text \<open>\<open>combined.write(text)\<close> on the open handle.\<close>

definition combined_write :: "string \<Rightarrow> world \<Rightarrow> world" where
  "combined_write text w =
     w\<lparr>combined := Some ((case combined w of None \<Rightarrow> [] | Some t \<Rightarrow> t) @ text)\<rparr>"

text \<open>
  The branch \<open>if transcript: ... else: ...\<close> of the loop body: \<open>None\<close> and the empty
  string are both false. The result is \<open>Inl\<close> the world in which an uncaught exception ended
  the run, or \<open>Inr\<close> the counters and the world after the branch. Opening the individual
  file is the first thing the true branch does.
\<close>

definition record_outcome ::
  "env \<Rightarrow> nat \<Rightarrow> video \<Rightarrow> string option \<Rightarrow> progress \<times> world \<Rightarrow> world + progress \<times> world" where
  "record_outcome e idx v transcript pw =
     (case pw of (p, w) \<Rightarrow>
        (case transcript of
           None \<Rightarrow>
             Inr (p\<lparr>fail_count := fail_count p + 1, failed_videos := failed_videos p @ [v]\<rparr>, w)
         | Some t \<Rightarrow>
             if t \<noteq> []
             then if raises e (OpenIndividual idx (individual_name v)) then Inl w
                  else Inr (p\<lparr>success_count := success_count p + 1\<rparr>,
                     combined_write (section_text v t)
                       (w\<lparr>individual := (individual w)(individual_name v \<mapsto> individual_text v t)\<rparr>))
             else Inr (p\<lparr>fail_count := fail_count p + 1,
                         failed_videos := failed_videos p @ [v]\<rparr>, w)))"

text \<open>One pass through the loop body: the retrieval, then the branch.\<close>

definition process_video ::
  "env \<Rightarrow> nat \<Rightarrow> video \<Rightarrow> progress \<times> world \<Rightarrow> world + progress \<times> world" where
  "process_video e idx v pw =
     (case pw of (p, w) \<Rightarrow>
        (case caption_read_fault e idx (fst v) (scratch w) of
           Some dir \<Rightarrow> Inl (w\<lparr>scratch := dir\<rparr>)
         | None \<Rightarrow>
             (case download_subtitle (fetch_caption e idx) (fst v) (scratch w) of
                (transcript, dir) \<Rightarrow> record_outcome e idx v transcript (p, w\<lparr>scratch := dir\<rparr>))))"

text \<open>The loop: an exception in one pass ends it.\<close>

fun process_videos ::
  "env \<Rightarrow> nat \<Rightarrow> video list \<Rightarrow> progress \<times> world \<Rightarrow> world + progress \<times> world" where
  "process_videos e idx [] pw = Inr pw"
| "process_videos e idx (v # vs) pw =
     (case process_video e idx v pw of
        Inl w \<Rightarrow> Inl w
      | Inr pw' \<Rightarrow> process_videos e (Suc idx) vs pw')"

text \<open>The world a pass or the loop ends in, with or without an exception.\<close>

definition world_of :: "world + progress \<times> world \<Rightarrow> world" where
  "world_of r = (case r of Inl w \<Rightarrow> w | Inr (p, w) \<Rightarrow> w)"

definition default_channel_name :: "string \<Rightarrow> string" where
  "default_channel_name url = hd (split_on (CHR ''/'') (last (split_on (CHR ''@'') url)))"

definition display_name :: "args \<Rightarrow> string" where
  "display_name a =
     (case channel_name a of
        None \<Rightarrow> default_channel_name (channel_url a)
      | Some n \<Rightarrow> if n \<noteq> [] then n else default_channel_name (channel_url a))"

definition make_manifest :: "env \<Rightarrow> args \<Rightarrow> video list \<Rightarrow> progress \<Rightarrow> manifest" where
  "make_manifest e a vs p =
     \<lparr>manifest_channel_url = channel_url a,
      manifest_channel_name = display_name a,
      download_date = manifest_time e,
      total_videos = length vs,
      transcripts_downloaded = success_count p,
      transcripts_failed = fail_count p,
      videos = map (\<lambda>v. \<lparr>entry_id = fst v, entry_title = snd v,
                           has_transcript = (v \<notin> set (failed_videos p))\<rparr>) vs\<rparr>"

text \<open>
  The whole run: exit status and final world. An uncaught exception gives exit status 1
  and leaves the world as it was when the exception was raised; the combined file is
  closed with what was written to it. \<open>os.rmdir\<close> removes the scratch directory only if it
  is empty and its failure is swallowed. A run that reaches its end has exit status 0.
\<close>

definition main :: "env \<Rightarrow> args \<Rightarrow> world \<Rightarrow> int \<times> world" where
  "main e a w0 =
     (case get_all_videos (list_channel e (channel_url a)) w0 of
        (Inl (SystemExit n), w) \<Rightarrow> (n, w)
      | (Inl UncaughtTimeout, w) \<Rightarrow> (1, w)
      | (Inr vs, w) \<Rightarrow>
          if raises e MakeOutputDir then (1, w)
          else if raises e MakeTempDir then (1, w\<lparr>output_dir_exists := True\<rparr>)
          else if raises e OpenCombined
            then (1, w\<lparr>output_dir_exists := True, temp_dir_exists := True\<rparr>)
          else
            (case process_videos e 1 vs
                    (\<lparr>success_count = 0, fail_count = 0, failed_videos = []\<rparr>,
                     w\<lparr>output_dir_exists := True, temp_dir_exists := True,
                       combined := Some (header_text (display_name a) (length vs)
                                          (header_time e) (channel_url a))\<rparr>) of
               Inl w3 \<Rightarrow> (1, w3)
             | Inr (p, w3) \<Rightarrow>
                 (let w4 = w3\<lparr>temp_dir_exists := (scratch w3 \<noteq> [])\<rparr>
                  in if raises e OpenManifest then (1, w4)
                     else (0, w4\<lparr>manifest_file := Some (make_manifest e a vs p)\<rparr>))))"

section \<open>Candidate lines\<close>

text \<open>The texts the loop of \<open>clean_vtt\<close> looks up in \<open>seen\<close>: the stripped texts of the
  lines it does not skip, those that are not empty, in document order.\<close>

definition candidates :: "string list \<Rightarrow> string list" where
  "candidates lines =
     filter (\<lambda>text. text \<noteq> []) (map strip_markup (filter (\<lambda>line. \<not> skipped line) lines))"

text \<open>A list without the repetitions of its elements: each element stays where it occurs
  first.\<close>

definition first_occurrences :: "'a list \<Rightarrow> 'a list" where
  "first_occurrences xs = rev (remdups (rev xs))"

section \<open>Markup in a string\<close>

text \<open>The pattern matches at no position of the string.\<close>

fun no_match :: "(string \<Rightarrow> string option) \<Rightarrow> string \<Rightarrow> bool" where
  "no_match m [] = True"
| "no_match m (c # cs) = (m (c # cs) = None \<and> no_match m cs)"

text \<open>Plain text: one line that the loop does not skip, in which none of the four patterns
  matches anywhere, with no whitespace at either end.\<close>

definition plain :: "string \<Rightarrow> bool" where
  "plain s \<longleftrightarrow>
     nl \<notin> set s \<and> \<not> skipped s
     \<and> no_match match_timing_tag s \<and> no_match match_c_tag s
     \<and> no_match (match_token ''align:'') s \<and> no_match (match_token ''position:'') s
     \<and> py_strip s = s"

text \<open>A cue text that reads like a metadata line once its tags are gone.\<close>

definition metadata_like :: string where
  "metadata_like = ''<c>Language: English</c>''"

text \<open>The run of non-whitespace characters a string starts with.\<close>

definition first_word :: "string \<Rightarrow> string" where
  "first_word s = takeWhile (\<lambda>c. \<not> is_space c) s"

text \<open>A keyword of a token pattern: not empty, no whitespace in it.\<close>

definition keyword :: "string \<Rightarrow> bool" where
  "keyword kw \<longleftrightarrow> kw \<noteq> [] \<and> list_all (\<lambda>c. \<not> is_space c) kw"

text \<open>A pattern that matches within the first word of a string only: it does not match
  the empty string, and a match stays a match when the first word is extended.\<close>

definition word_local :: "(string \<Rightarrow> string option) \<Rightarrow> bool" where
  "word_local m \<longleftrightarrow>
     m [] = None
     \<and> (\<forall>a b. m a \<noteq> None \<longrightarrow> prefix (first_word a) (first_word b) \<longrightarrow> m b \<noteq> None)"

text \<open>The characters between the angle brackets of a timing tag.\<close>

definition hm_char :: "char \<Rightarrow> bool" where
  "hm_char c \<longleftrightarrow> is_digit c \<or> c = CHR '':'' \<or> c = CHR ''.''"

text \<open>No \<open><\<close> of the string is followed, after a possibly empty run of digits, colons and
  dots, by another \<open><\<close>.\<close>

fun tag_safe :: "string \<Rightarrow> bool" where
  "tag_safe [] = True"
| "tag_safe (c # cs) =
     ((c = CHR ''<'' \<longrightarrow> \<not> startswith (dropWhile hm_char cs) ''<'') \<and> tag_safe cs)"

section \<open>The transcripts of a run\<close>









section \<open>Scenarios\<close>

definition scenario_a :: string where
  "scenario_a =
     ''WEBVTT'' @ [nl, nl]
     @ ''00:00:00.000 --> 00:00:02.000'' @ [nl]
     @ ''Hello world'' @ [nl, nl]
     @ ''00:00:01.500 --> 00:00:03.000'' @ [nl]
     @ ''Hello world'' @ [nl]
     @ ''Next line'' @ [nl]"

definition scenario_d :: string where
  "scenario_d = ''A/B: '' @ [CHR 0x22] @ ''Test'' @ [CHR 0x22] @ ''?*''"

definition fresh_world :: world where
  "fresh_world =
     \<lparr>output_dir_exists = False, temp_dir_exists = False, scratch = [],
      individual = Map.empty, combined = None, manifest_file = None, stderr_text = []\<rparr>"

definition scenario_args :: args where
  "scenario_args =
     \<lparr>channel_url = ''https://www.youtube.com/@chan/videos'', output_dir = ''transcripts'',
      combined_file = ''all_transcripts.txt'', channel_name = None\<rparr>"

text \<open>Scenario C: the listing call exits with status 1.\<close>

definition scenario_c_result :: proc_result where
  "scenario_c_result = \<lparr>returncode = 1, stdout = [], stderr = ''ERROR: unable to list''\<rparr>"

definition scenario_c_env :: env where
  "scenario_c_env =
     \<lparr>list_channel = (\<lambda>url. Returned scenario_c_result),
      fetch_caption = (\<lambda>idx video_id dir. Exited dir),
      raises = (\<lambda>op. False),
      header_time = ''2024-01-01 10:00:00'', manifest_time = ''2024-01-01 10:05:00''\<rparr>"

text \<open>A caption file that holds the document header and metadata lines only.\<close>

definition header_only :: string where
  "header_only = ''WEBVTT'' @ [nl] @ ''Kind: captions'' @ [nl] @ ''Language: en'' @ [nl]"

definition header_only_env :: env where
  "header_only_env =
     \<lparr>list_channel = (\<lambda>url. Returned \<lparr>returncode = 0, stdout = [], stderr = []\<rparr>),
      fetch_caption = (\<lambda>idx video_id dir. Exited ((video_id @ ''.en.vtt'', header_only) # dir)),
      raises = (\<lambda>op. False),
      header_time = ''2024-01-01 10:00:00'', manifest_time = ''2024-01-01 10:05:00''\<rparr>"

text \<open>Caption tools that leave a partial file behind and time out, that write a file which
  is no caption file, and that write the expected caption file.\<close>

definition timeout_tool :: "string \<Rightarrow> scratch_dir \<Rightarrow> fetch_outcome" where
  "timeout_tool video_id dir = TimedOut ((video_id @ ''.en.vtt.part'', ''WEBVTT'') # dir)"

definition no_caption_tool :: "string \<Rightarrow> scratch_dir \<Rightarrow> fetch_outcome" where
  "no_caption_tool video_id dir = Exited ((video_id @ ''.info.json'', ''{}'') # dir)"

definition caption_tool :: "string \<Rightarrow> scratch_dir \<Rightarrow> fetch_outcome" where
  "caption_tool video_id dir = Exited ((video_id @ ''.en.vtt'', scenario_a) # dir)"








text \<open>A line that starts with a timing tag and in which deleting a \<open>c\<close> tag joins the
  two halves of the same tag.\<close>

definition assembled_tag :: string where
  "assembled_tag = ''<00:00:01.000><00:00:<c>01.000>''"

text \<open>Cues with cue settings on the timestamp line, inline timing and \<open>c\<close> tags, other
  tags and a stray \<open><\<close> in the text.\<close>

definition styled_caption :: string where
  "styled_caption =
     ''WEBVTT'' @ [nl, nl]
     @ ''00:00:00.000 --> 00:00:02.000 align:start position:0%'' @ [nl]
     @ ''<i>Hi</i><00:00:01.000><c> you</c> align:start'' @ [nl, nl]
     @ ''00:00:02.000 --> 00:00:04.000'' @ [nl]
     @ ''<v Bob>3<5 is true'' @ [nl]"

section \<open>Properties of the string primitives\<close>

lemma set_strip_chars: "set (strip_chars p s) \<subseteq> set s"
proof -
  have "set (dropWhile p (rev (dropWhile p s))) \<subseteq> set (rev (dropWhile p s))"
    by (rule set_dropWhileD [THEN subsetI])
  also have "\<dots> \<subseteq> set s"
    using set_dropWhileD [of _ p s] by auto
  finally show ?thesis by (simp add: strip_chars_def)
qed

section \<open>The normalizer on the sample document\<close>

text \<open>
  C2. On the sample caption document (header, two cue blocks that share the line
  \<open>Hello world\<close>, then \<open>Next line\<close>) the normalizer returns exactly
  \<open>Hello world Next line\<close>.
\<close>

theorem clean_vtt_scenario_a: "clean_vtt scenario_a = ''Hello world Next line''"
  by code_simp

section \<open>File name sanitization\<close>

text \<open>
  C7. For every title the sanitized file name contains none of the characters
  \<open>< > : " / \ | ? *\<close>, is at most 200 characters long and is not empty; it is \<open>untitled\<close>
  when removing the characters and stripping dots and spaces leaves nothing; and the title
  \<open>A/B: "Test"?*\<close> becomes exactly \<open>AB Test\<close>.
\<close>

theorem sanitize_filename_bound:
  "set (sanitize_filename title) \<inter> forbidden = {}
   \<and> length (sanitize_filename title) \<le> 200
   \<and> sanitize_filename title \<noteq> []
   \<and> (strip_chars (\<lambda>c. c \<in> set ''. '') (filter (\<lambda>c. c \<notin> forbidden) title) = []
        \<longrightarrow> sanitize_filename title = ''untitled'')
   \<and> sanitize_filename scenario_d = ''AB Test''"
proof -
  let ?f = "filter (\<lambda>c. c \<notin> forbidden) title"
  let ?s = "strip_chars (\<lambda>c. c \<in> set ''. '') ?f"
  have sub: "set ?s \<inter> forbidden = {}"
    using set_strip_chars [of "\<lambda>c. c \<in> set ''. ''" ?f] by auto
  have unt: "set ''untitled'' \<inter> forbidden = {}"
    by (simp add: forbidden_def)
  have a: "set (sanitize_filename title) \<inter> forbidden = {}"
  proof (cases "?s = []")
    case True
    then show ?thesis using unt by (simp add: sanitize_filename_def Let_def)
  next
    case False
    have "set (take 200 ?s) \<subseteq> set ?s" by (rule set_take_subset)
    with sub False show ?thesis by (auto simp: sanitize_filename_def Let_def)
  qed
  have b: "length (sanitize_filename title) \<le> 200"
    by (simp add: sanitize_filename_def Let_def)
  have c: "sanitize_filename title \<noteq> []"
    by (simp add: sanitize_filename_def Let_def)
  have d: "?s = [] \<longrightarrow> sanitize_filename title = ''untitled''"
    by (simp add: sanitize_filename_def Let_def)
  have e: "sanitize_filename scenario_d = ''AB Test''"
    by (simp add: sanitize_filename_def scenario_d_def forbidden_def strip_chars_def)
  from a b c d e show ?thesis by blast
qed

theorem sanitize_filename_bound_witness:
  "strip_chars (\<lambda>c. c \<in> set ''. '') (filter (\<lambda>c. c \<notin> forbidden) ''..?: '') = []
   \<and> sanitize_filename ''..?: '' = ''untitled''
   \<and> set (sanitize_filename ''..?: '') \<inter> forbidden = {}"
proof -
  have h: "strip_chars (\<lambda>c. c \<in> set ''. '') (filter (\<lambda>c. c \<notin> forbidden) ''..?: '') = []"
    by (simp add: strip_chars_def forbidden_def)
  with sanitize_filename_bound [of "''..?: ''"] show ?thesis by blast
qed

section \<open>Enumeration failure\<close>

text \<open>
  C5. If the listing call returns with a non-zero status, the run ends with exit status 1,
  the tool's error text is appended to standard error behind the line
  \<open>[ERROR] Failed to list channel videos:\<close>, and nothing else changes: no output directory,
  scratch directory, individual file, combined file or manifest is created.
\<close>

theorem enumeration_failure_fatal:
  assumes "list_channel e (channel_url a) = Returned r" and "returncode r \<noteq> 0"
  shows "fst (main e a w0) = 1 \<and> fst (main e a w0) \<noteq> 0
     \<and> stderr_text (snd (main e a w0)) =
          stderr_text w0 @ ''[ERROR] Failed to list channel videos:'' @ [nl] @ stderr r @ [nl]
     \<and> output_dir_exists (snd (main e a w0)) = output_dir_exists w0
     \<and> temp_dir_exists (snd (main e a w0)) = temp_dir_exists w0
     \<and> scratch (snd (main e a w0)) = scratch w0
     \<and> individual (snd (main e a w0)) = individual w0
     \<and> combined (snd (main e a w0)) = combined w0
     \<and> manifest_file (snd (main e a w0)) = manifest_file w0"
  using assms by (simp add: main_def get_all_videos_def)

theorem enumeration_failure_fatal_witness:
  "list_channel scenario_c_env (channel_url scenario_args) = Returned scenario_c_result
   \<and> returncode scenario_c_result \<noteq> 0
   \<and> fst (main scenario_c_env scenario_args fresh_world) = 1
   \<and> stderr_text (snd (main scenario_c_env scenario_args fresh_world)) =
        ''[ERROR] Failed to list channel videos:'' @ [nl] @ ''ERROR: unable to list'' @ [nl]
   \<and> output_dir_exists (snd (main scenario_c_env scenario_args fresh_world)) = False
   \<and> combined (snd (main scenario_c_env scenario_args fresh_world)) = None
   \<and> manifest_file (snd (main scenario_c_env scenario_args fresh_world)) = None"
proof -
  have h1: "list_channel scenario_c_env (channel_url scenario_args) = Returned scenario_c_result"
    by (simp add: scenario_c_env_def)
  have h2: "returncode scenario_c_result \<noteq> 0"
    by (simp add: scenario_c_result_def)
  from enumeration_failure_fatal [OF h1 h2, of fresh_world] h1 h2 show ?thesis
    by (simp add: fresh_world_def scenario_c_result_def)
qed

section \<open>An empty transcript\<close>

text \<open>
  C10. If the tool exits, a caption file is located, reading it does not raise and its
  normalization is the empty string, then \<open>download_subtitle\<close> returns that empty string
  and the loop body takes the failure branch: the failure count goes up by one, the video
  joins the failed list, no individual file is written and the combined file is not
  touched. The orchestrator treats the empty transcript exactly as it treats \<open>None\<close>.
\<close>

theorem empty_transcript_is_failure:
  assumes "fetch_caption e idx (fst v) (scratch w) = Exited dir"
    and "find_vtt (fst v) dir = Some (f, content)"
    and "\<not> raises e (ReadCaption idx f)"
    and "clean_vtt content = []"
  shows "fst (download_subtitle (fetch_caption e idx) (fst v) (scratch w)) = Some []
     \<and> process_video e idx v (p, w) =
         Inr (p\<lparr>fail_count := fail_count p + 1, failed_videos := failed_videos p @ [v]\<rparr>,
              w\<lparr>scratch := snd (download_subtitle (fetch_caption e idx) (fst v) (scratch w))\<rparr>)
     \<and> individual (world_of (process_video e idx v (p, w))) = individual w
     \<and> combined (world_of (process_video e idx v (p, w))) = combined w
     \<and> record_outcome e idx v (Some []) (p, w) = record_outcome e idx v None (p, w)"
  using assms
  by (simp add: download_subtitle_def process_video_def record_outcome_def caption_read_fault_def
      world_of_def)

theorem empty_transcript_is_failure_witness:
  "fetch_caption header_only_env 1 ''vid'' (scratch fresh_world) = Exited [(''vid.en.vtt'', header_only)]
   \<and> find_vtt ''vid'' [(''vid.en.vtt'', header_only)] = Some (''vid.en.vtt'', header_only)
   \<and> \<not> raises header_only_env (ReadCaption 1 ''vid.en.vtt'')
   \<and> clean_vtt header_only = []
   \<and> fst (download_subtitle (fetch_caption header_only_env 1) ''vid'' (scratch fresh_world)) = Some []
   \<and> process_video header_only_env 1 (''vid'', ''Title'')
        (\<lparr>success_count = 0, fail_count = 0, failed_videos = []\<rparr>, fresh_world)
       = Inr (\<lparr>success_count = 0, fail_count = 1, failed_videos = [(''vid'', ''Title'')]\<rparr>,
              fresh_world)"
proof -
  have h1: "fetch_caption header_only_env 1 (fst (''vid'', ''Title'')) (scratch fresh_world)
              = Exited [(''vid.en.vtt'', header_only)]"
    by (simp add: header_only_env_def fresh_world_def)
  have h2: "find_vtt (fst (''vid'', ''Title'')) [(''vid.en.vtt'', header_only)]
              = Some (''vid.en.vtt'', header_only)"
    by (simp add: find_vtt_def SUBTITLE_LANG_def)
  have h3: "\<not> raises header_only_env (ReadCaption 1 ''vid.en.vtt'')"
    by (simp add: header_only_env_def)
  have h4: "clean_vtt header_only = []"
    by code_simp
  have d: "snd (download_subtitle (fetch_caption header_only_env 1) ''vid'' (scratch fresh_world)) = []"
    using h1 h2 by (simp add: download_subtitle_def startswith_def)
  from empty_transcript_is_failure [OF h1 h2 h3 h4,
      of "\<lparr>success_count = 0, fail_count = 0, failed_videos = []\<rparr>"]
    h1 h2 h3 h4 d show ?thesis by (simp add: fresh_world_def)
qed

section \<open>Scratch files after a retrieval\<close>

text \<open>
  C4, as stated, fails: after a timeout, and after a call that located no caption file,
  files whose names start with the video id are still in the scratch directory.
\<close>

theorem download_subtitle_cleanup_counterexample:
  "startswith ''vid.en.vtt.part'' ''vid''
   \<and> snd (download_subtitle timeout_tool ''vid'' []) = [(''vid.en.vtt.part'', ''WEBVTT'')]
   \<and> startswith ''vid.info.json'' ''vid''
   \<and> snd (download_subtitle no_caption_tool ''vid'' []) = [(''vid.info.json'', ''{}'')]"
  by (simp add: download_subtitle_def timeout_tool_def no_caption_tool_def find_vtt_def
      SUBTITLE_LANG_def startswith_def endswith_def)

text \<open>
  C4, amended. When the tool has exited and a caption file is located, no file whose name
  starts with the video id is left in the scratch directory when the call returns, the
  files with other names are as the tool left them, and the result is the normalization
  of the located file.
\<close>

theorem download_subtitle_cleanup:
  assumes "tool video_id temp_dir = Exited dir" and "find_vtt video_id dir = Some (f, content)"
  shows "(\<forall>x \<in> set (snd (download_subtitle tool video_id temp_dir)).
            \<not> startswith (fst x) video_id)
     \<and> snd (download_subtitle tool video_id temp_dir) =
          filter (\<lambda>x. \<not> startswith (fst x) video_id) dir
     \<and> fst (download_subtitle tool video_id temp_dir) = Some (clean_vtt content)"
  using assms by (auto simp: download_subtitle_def case_prod_unfold)

theorem download_subtitle_cleanup_witness:
  "caption_tool ''vid'' [(''vid.old'', ''x''), (''other.txt'', ''y'')]
     = Exited [(''vid.en.vtt'', scenario_a), (''vid.old'', ''x''), (''other.txt'', ''y'')]
   \<and> find_vtt ''vid'' [(''vid.en.vtt'', scenario_a), (''vid.old'', ''x''), (''other.txt'', ''y'')]
       = Some (''vid.en.vtt'', scenario_a)
   \<and> snd (download_subtitle caption_tool ''vid'' [(''vid.old'', ''x''), (''other.txt'', ''y'')])
       = [(''other.txt'', ''y'')]
   \<and> fst (download_subtitle caption_tool ''vid'' [(''vid.old'', ''x''), (''other.txt'', ''y'')])
       = Some (clean_vtt scenario_a)"
proof -
  let ?d0 = "[(''vid.old'', ''x''), (''other.txt'', ''y'')]"
  let ?d1 = "(''vid.en.vtt'', scenario_a) # ?d0"
  have a1: "caption_tool ''vid'' ?d0 = Exited ?d1"
    by (simp add: caption_tool_def)
  have a2: "find_vtt ''vid'' ?d1 = Some (''vid.en.vtt'', scenario_a)"
    by (simp add: find_vtt_def SUBTITLE_LANG_def)
  have f: "filter (\<lambda>x. \<not> startswith (fst x) ''vid'') ?d1 = [(''other.txt'', ''y'')]"
    by (simp add: startswith_def)
  note t = download_subtitle_cleanup [of caption_tool "''vid''" ?d0 ?d1 "''vid.en.vtt''" scenario_a,
      OF a1 a2]
  from t have "snd (download_subtitle caption_tool ''vid'' ?d0)
          = filter (\<lambda>x. \<not> startswith (fst x) ''vid'') ?d1"
    by blast
  then have r1: "snd (download_subtitle caption_tool ''vid'' ?d0) = [(''other.txt'', ''y'')]"
    by (simp only: f)
  from t have r2: "fst (download_subtitle caption_tool ''vid'' ?d0) = Some (clean_vtt scenario_a)"
    by blast
  from a1 a2 r1 r2 show ?thesis by blast
qed

section \<open>The loop of the orchestrator\<close>


























section \<open>Manifest consistency\<close>



section \<open>The combined archive\<close>




section \<open>Deduplication\<close>

lemma remdups_append_filter:
  "remdups (xs @ ys) = filter (\<lambda>x. x \<notin> set ys) (remdups xs) @ remdups ys"
  by (induction xs) auto


lemma first_occurrences_append:
  "first_occurrences (xs @ ys) = first_occurrences xs @ filter (\<lambda>y. y \<notin> set xs) (first_occurrences ys)"
  by (simp add: first_occurrences_def remdups_append_filter rev_filter)

lemma first_occurrences_Cons:
  "first_occurrences (x # xs) = x # filter (\<lambda>y. y \<noteq> x) (first_occurrences xs)"
  using first_occurrences_append [of "[x]" xs] by (simp add: first_occurrences_def)

lemma first_occurrences_distinct: "distinct xs \<Longrightarrow> first_occurrences xs = xs"
  by (simp add: first_occurrences_def distinct_remdups_id)


lemma set_first_occurrences: "set (first_occurrences xs) = set xs"
  by (simp add: first_occurrences_def)

lemma first_occurrences_seen:
  assumes "x \<in> set acc"
  shows "first_occurrences (acc @ x # xs) = first_occurrences (acc @ xs)"
proof -
  have "filter (\<lambda>y. y \<notin> set acc) (filter (\<lambda>y. y \<noteq> x) (first_occurrences xs))
          = filter (\<lambda>y. y \<notin> set acc) (first_occurrences xs)"
    using assms by (auto intro: filter_cong)
  then show ?thesis
    using assms by (simp add: first_occurrences_append [of acc] first_occurrences_Cons)
qed

lemma candidates_Cons:
  "candidates (line # lines) =
     (if skipped line \<or> strip_markup line = [] then candidates lines
      else strip_markup line # candidates lines)"
  by (simp add: candidates_def)

lemma clean_loop_first_occurrences:
  "distinct acc \<Longrightarrow>
     clean_loop lines (set acc) acc = first_occurrences (acc @ candidates lines)"
proof (induction lines arbitrary: acc)
  case Nil
  then show ?case by (simp add: candidates_def first_occurrences_distinct)
next
  case (Cons line lines)
  show ?case
  proof (cases "skipped line \<or> strip_markup line = []")
    case True
    with Cons show ?thesis by (auto simp: candidates_Cons Let_def)
  next
    case False
    show ?thesis
    proof (cases "strip_markup line \<in> set acc")
      case True
      with False Cons show ?thesis
        by (simp add: candidates_Cons Let_def first_occurrences_seen)
    next
      case new: False
      then have d: "distinct (acc @ [strip_markup line])"
        using Cons.prems by simp
      from Cons.IH [OF d] False new show ?thesis
        by (simp add: candidates_Cons Let_def)
    qed
  qed
qed

lemma clean_lines_first_occurrences:
  "clean_lines vtt_text = first_occurrences (candidates (split_on nl vtt_text))"
  using clean_loop_first_occurrences [of "[]" "split_on nl vtt_text"]
  by (simp add: clean_lines_def)



section \<open>Normalizing normalized text\<close>

lemma split_on_single: "sep \<notin> set s \<Longrightarrow> split_on sep s = [s]"
  by (induction s) auto

lemma re_sub_del_no_match: "no_match m s \<Longrightarrow> re_sub_del m s = s"
  by (induction s) auto

text \<open>
  C9, as stated, fails: the normalizer is not the identity on its own image. The cue text
  \<open><c>Language: English</c>\<close> is normalized to \<open>Language: English\<close>, which the normalizer
  then drops as a metadata line.
\<close>

theorem clean_vtt_not_idempotent:
  "clean_vtt metadata_like = ''Language: English''
   \<and> clean_vtt (clean_vtt metadata_like) = []
   \<and> clean_vtt (clean_vtt metadata_like) \<noteq> clean_vtt metadata_like"
proof -
  have a: "clean_vtt metadata_like = ''Language: English''"
    by code_simp
  have b: "clean_vtt ''Language: English'' = []"
    by code_simp
  from a b show ?thesis by simp
qed

text \<open>
  C9, amended. The normalizer returns unchanged every string that is a single line, is
  not a header, metadata, timestamp or blank line, contains no timing tag, no \<open>c\<close> tag and
  no \<open>align:\<close> or \<open>position:\<close> token, and has no whitespace at either end.
\<close>

theorem clean_vtt_plain:
  assumes "plain s"
  shows "clean_vtt s = s"
proof -
  have sm: "strip_markup s = s"
    using assms by (simp add: plain_def strip_markup_def re_sub_del_no_match)
  have ne: "s \<noteq> []"
    using assms by (auto simp: plain_def skipped_def py_strip_def strip_chars_def)
  have "clean_lines s = [s]"
    using assms sm ne by (simp add: clean_lines_def plain_def split_on_single)
  then show ?thesis by (simp add: clean_vtt_def)
qed

theorem clean_vtt_plain_witness:
  "plain ''Hello world Next line'' \<and> clean_vtt ''Hello world Next line'' = ''Hello world Next line''"
proof -
  have h: "plain ''Hello world Next line''"
    by code_simp
  from clean_vtt_plain [OF h] h show ?thesis by simp
qed

section \<open>Token patterns\<close>

lemma match_seq_lit: "match_seq (lit kw) s = Some r \<longleftrightarrow> s = kw @ r"
proof (induction kw arbitrary: s)
  case Nil
  show ?case by (auto simp: lit_def)
next
  case (Cons k kw)
  then show ?case by (cases s) (auto simp: lit_def)
qed

lemma match_token_Some:
  "match_token kw s = Some r \<longleftrightarrow>
     (\<exists>d rest. s = kw @ d # rest \<and> \<not> is_space d \<and> r = dropWhile (\<lambda>c. \<not> is_space c) (d # rest))"
proof (cases "match_seq (lit kw) s")
  case None
  then have "\<And>t. s \<noteq> kw @ t" using match_seq_lit [of kw s] by auto
  with None show ?thesis by (auto simp: match_token_def)
next
  case (Some t)
  then have s: "s = kw @ t" by (simp add: match_seq_lit)
  show ?thesis
  proof (cases t)
    case Nil
    with Some s show ?thesis by (auto simp: match_token_def)
  next
    case (Cons d rest)
    with Some s show ?thesis by (auto simp: match_token_def)
  qed
qed

lemma first_word_append_all:
  "list_all (\<lambda>c. \<not> is_space c) xs \<Longrightarrow> first_word (xs @ ys) = xs @ first_word ys"
  by (induction xs) (auto simp: first_word_def)

lemma first_word_decomp: "\<exists>t. s = first_word s @ t"
  by (metis first_word_def takeWhile_dropWhile_id)

lemma first_word_no_space: "c \<in> set (first_word s) \<Longrightarrow> \<not> is_space c"
  unfolding first_word_def by (auto dest: set_takeWhileD)

lemma match_token_iff:
  assumes "keyword kw"
  shows "match_token kw s \<noteq> None \<longleftrightarrow> strict_prefix kw (first_word s)"
proof
  assume "match_token kw s \<noteq> None"
  then obtain r where "match_token kw s = Some r" by auto
  then obtain d rest where s: "s = kw @ d # rest" and d: "\<not> is_space d"
    by (auto simp: match_token_Some)
  have "first_word s = kw @ d # first_word rest"
    using assms d by (simp add: s keyword_def first_word_append_all) (simp add: first_word_def)
  then show "strict_prefix kw (first_word s)" by (simp add: strict_prefix_def)
next
  assume "strict_prefix kw (first_word s)"
  then obtain d zs where fw: "first_word s = kw @ d # zs"
    by (auto simp: strict_prefix_def prefix_def neq_Nil_conv)
  then have d: "\<not> is_space d"
    using first_word_no_space [of d s] by simp
  obtain t where "s = first_word s @ t" using first_word_decomp by blast
  then have "s = kw @ d # (zs @ t)" using fw by simp
  with d have "match_token kw s = Some (dropWhile (\<lambda>c. \<not> is_space c) (d # (zs @ t)))"
    unfolding match_token_Some by blast
  then show "match_token kw s \<noteq> None" by simp
qed

lemma match_token_shorter:
  assumes "keyword kw" and "match_token kw (c # cs) = Some r"
  shows "length r \<le> length cs"
proof -
  from assms(2) obtain d rest where s: "c # cs = kw @ d # rest"
    and r: "r = dropWhile (\<lambda>c. \<not> is_space c) (d # rest)"
    by (auto simp: match_token_Some)
  have "length r \<le> length (d # rest)"
    unfolding r by (rule length_dropWhile_le)
  then have a: "length r \<le> Suc (length rest)" by simp
  from s have "length (c # cs) = length (kw @ d # rest)" by simp
  then have b: "Suc (length cs) = length kw + Suc (length rest)" by simp
  have c: "Suc 0 \<le> length kw"
    using assms(1) by (cases kw) (simp_all add: keyword_def)
  from a b c show ?thesis by linarith
qed

lemma match_token_rest:
  assumes "match_token kw s = Some r"
  shows "(r = [] \<or> is_space (hd r)) \<and> (\<exists>p. s = p @ r)"
proof -
  from assms obtain d rest where s: "s = kw @ d # rest"
    and r: "r = dropWhile (\<lambda>c. \<not> is_space c) (d # rest)"
    by (auto simp: match_token_Some)
  have a: "r = [] \<or> is_space (hd r)"
    unfolding r using hd_dropWhile [of "\<lambda>c. \<not> is_space c" "d # rest"] by blast
  have "d # rest = takeWhile (\<lambda>c. \<not> is_space c) (d # rest) @ r"
    by (simp only: r takeWhile_dropWhile_id)
  then obtain p where "d # rest = p @ r" by blast
  then have "s = (kw @ p) @ r"
    using s by simp
  with a show ?thesis by blast
qed

lemma re_sub_del_None: "m (c # cs) = None \<Longrightarrow> re_sub_del m (c # cs) = c # re_sub_del m cs"
  by simp

lemma re_sub_del_token:
  "keyword kw \<Longrightarrow> match_token kw (c # cs) = Some r \<Longrightarrow>
     re_sub_del (match_token kw) (c # cs) = re_sub_del (match_token kw) r"
  by (simp add: match_token_shorter)

lemma first_word_space: "s = [] \<or> is_space (hd s) \<Longrightarrow> first_word s = []"
  by (cases s) (auto simp: first_word_def)

lemma first_word_after_space:
  assumes "keyword kw" and "s = [] \<or> is_space (hd s)"
  shows "first_word (re_sub_del (match_token kw) s) = []"
proof (cases s)
  case Nil
  then show ?thesis by (simp add: first_word_def)
next
  case (Cons w t)
  with assms(2) have w: "is_space w" by simp
  have "\<not> strict_prefix kw (first_word s)"
    using assms(2) by (simp add: first_word_space)
  then have "match_token kw (w # t) = None"
    using match_token_iff [OF assms(1), of s] Cons by simp
  then show ?thesis using w Cons by (simp add: first_word_def)
qed

lemma first_word_re_sub_del:
  assumes "keyword kw"
  shows "prefix (first_word (re_sub_del (match_token kw) s)) (first_word s)"
proof (induction s)
  case Nil
  show ?case by (simp add: first_word_def)
next
  case (Cons c cs)
  show ?case
  proof (cases "match_token kw (c # cs)")
    case None
    with Cons show ?thesis by (simp add: first_word_def)
  next
    case (Some r)
    have "first_word (re_sub_del (match_token kw) r) = []"
      using first_word_after_space [OF assms] match_token_rest [OF Some] by blast
    then show ?thesis
      unfolding re_sub_del_token [OF assms Some] by simp
  qed
qed

text \<open>Deleting the matches of one keyword pattern creates no match of another.\<close>

lemma match_token_re_sub_del:
  assumes "keyword kw1" and "keyword kw2"
    and "match_token kw1 (re_sub_del (match_token kw2) s) \<noteq> None"
  shows "match_token kw1 s \<noteq> None"
proof -
  have "strict_prefix kw1 (first_word (re_sub_del (match_token kw2) s))"
    using match_token_iff [OF assms(1)] assms(3) by blast
  then have "strict_prefix kw1 (first_word s)"
    using first_word_re_sub_del [OF assms(2), of s]
    by (auto simp: strict_prefix_def prefix_def)
  then show ?thesis using match_token_iff [OF assms(1)] by blast
qed

lemma no_match_append: "no_match m (xs @ ys) \<Longrightarrow> no_match m ys"
  by (induction xs) auto

lemma no_match_re_sub_del_same:
  assumes "keyword kw"
  shows "no_match (match_token kw) (re_sub_del (match_token kw) s)"
proof (induction s rule: length_induct)
  case (1 s)
  show ?case
  proof (cases s)
    case Nil
    then show ?thesis by simp
  next
    case (Cons c cs)
    show ?thesis
    proof (cases "match_token kw (c # cs)")
      case None
      have step: "re_sub_del (match_token kw) (c # cs) = c # re_sub_del (match_token kw) cs"
        using None by simp
      have a: "match_token kw (re_sub_del (match_token kw) (c # cs)) = None"
        using match_token_re_sub_del [OF assms assms, of "c # cs"] None by blast
      have b: "no_match (match_token kw) (re_sub_del (match_token kw) cs)"
        using "1.IH" Cons by simp
      from a b show ?thesis unfolding Cons step by simp
    next
      case (Some r)
      have "length r < length s"
        using match_token_shorter [OF assms Some] Cons by simp
      then have "no_match (match_token kw) (re_sub_del (match_token kw) r)"
        using "1.IH" by blast
      then show ?thesis
        unfolding Cons using re_sub_del_token [OF assms Some] by simp
    qed
  qed
qed

section \<open>Patterns that match within a word\<close>

lemma word_local_token:
  assumes "keyword kw"
  shows "word_local (match_token kw)"
proof -
  have "match_token kw [] = None"
    using match_token_iff [OF assms, of "[]"] by (simp add: first_word_def)
  moreover have "match_token kw b \<noteq> None"
    if "match_token kw a \<noteq> None" and "prefix (first_word a) (first_word b)" for a b
  proof -
    have "strict_prefix kw (first_word a)"
      using match_token_iff [OF assms] that(1) by blast
    then have "strict_prefix kw (first_word b)"
      using that(2) by (auto simp: strict_prefix_def prefix_def)
    then show ?thesis using match_token_iff [OF assms] by blast
  qed
  ultimately show ?thesis unfolding word_local_def by blast
qed

lemma word_local_D:
  "word_local m \<Longrightarrow> m a \<noteq> None \<Longrightarrow> prefix (first_word a) (first_word b) \<Longrightarrow> m b \<noteq> None"
  unfolding word_local_def by blast

text \<open>Deleting the matches of a token pattern creates no match of a pattern that matches
  within a word.\<close>

lemma no_match_local_pass:
  assumes "word_local m" and "keyword kw"
  shows "no_match m s \<Longrightarrow> no_match m (re_sub_del (match_token kw) s)"
proof (induction s rule: length_induct)
  case (1 s)
  show ?case
  proof (cases s)
    case Nil
    then show ?thesis by simp
  next
    case (Cons c cs)
    show ?thesis
    proof (cases "match_token kw (c # cs)")
      case None
      have step: "re_sub_del (match_token kw) (c # cs) = c # re_sub_del (match_token kw) cs"
        using None by simp
      have "m (c # cs) = None"
        using "1.prems" Cons by simp
      then have a: "m (re_sub_del (match_token kw) (c # cs)) = None"
        using word_local_D [OF assms(1) _ first_word_re_sub_del [OF assms(2), of "c # cs"]]
        by blast
      have b: "no_match m (re_sub_del (match_token kw) cs)"
        using "1.IH" "1.prems" Cons by simp
      from a b show ?thesis unfolding Cons step by simp
    next
      case (Some r)
      obtain p where p: "c # cs = p @ r"
        using match_token_rest [OF Some] by blast
      have "no_match m r"
        using "1.prems" Cons p no_match_append [of m p r] by simp
      moreover have "length r < length s"
        using match_token_shorter [OF assms(2) Some] Cons by simp
      ultimately have "no_match m (re_sub_del (match_token kw) r)"
        using "1.IH" by blast
      then show ?thesis
        unfolding Cons using re_sub_del_token [OF assms(2) Some] by simp
    qed
  qed
qed

lemma first_word_append_prefix: "prefix (first_word xs) (first_word (xs @ ys))"
  by (induction xs) (auto simp: first_word_def)

lemma no_match_local_prefix:
  assumes "word_local m"
  shows "no_match m (xs @ ys) \<Longrightarrow> no_match m xs"
proof (induction xs)
  case Nil
  show ?case by simp
next
  case (Cons c xs)
  have "m (c # xs) = None"
  proof (rule ccontr)
    assume "m (c # xs) \<noteq> None"
    then have "m ((c # xs) @ ys) \<noteq> None"
      by (rule word_local_D [OF assms _ first_word_append_prefix])
    with Cons.prems show False by simp
  qed
  with Cons show ?case by simp
qed

lemma strip_chars_decomp: "\<exists>p q. s = p @ strip_chars f s @ q"
proof -
  let ?t = "dropWhile f s"
  have a: "s = takeWhile f s @ ?t" by simp
  have "rev (dropWhile f (rev ?t)) @ rev (takeWhile f (rev ?t))
          = rev (takeWhile f (rev ?t) @ dropWhile f (rev ?t))"
    by (simp only: rev_append)
  also have "\<dots> = rev (rev ?t)"
    by (simp only: takeWhile_dropWhile_id)
  also have "\<dots> = ?t"
    by (simp only: rev_rev_ident)
  finally have b: "?t = strip_chars f s @ rev (takeWhile f (rev ?t))"
    by (simp only: strip_chars_def)
  from a b have "s = takeWhile f s @ strip_chars f s @ rev (takeWhile f (rev ?t))"
    by metis
  then show ?thesis by blast
qed

lemma no_match_local_strip:
  assumes "word_local m" and "no_match m s"
  shows "no_match m (py_strip s)"
proof -
  obtain p q where s: "s = p @ py_strip s @ q"
    unfolding py_strip_def using strip_chars_decomp by blast
  have "no_match m (py_strip s @ q)"
    using assms(2) s no_match_append [of m p "py_strip s @ q"] by simp
  then show ?thesis by (rule no_match_local_prefix [OF assms(1)])
qed

lemma first_word_append_space: "first_word (xs @ CHR '' '' # ys) = first_word xs"
  by (induction xs) (auto simp: first_word_def is_space_def)

lemma no_match_local_space:
  assumes "word_local m"
  shows "no_match m xs \<Longrightarrow> no_match m ys \<Longrightarrow> no_match m (xs @ CHR '' '' # ys)"
proof (induction xs)
  case Nil
  have "first_word (CHR '' '' # ys) = []"
    by (simp add: first_word_def is_space_def)
  then have "prefix (first_word (CHR '' '' # ys)) (first_word [])"
    by simp
  then have "m (CHR '' '' # ys) = None"
    using word_local_D [OF assms, of "CHR '' '' # ys" "[]"] assms
    unfolding word_local_def by blast
  with Nil show ?case by simp
next
  case (Cons c xs)
  have "m (c # xs) = None" using Cons.prems by simp
  moreover have "prefix (first_word ((c # xs) @ CHR '' '' # ys)) (first_word (c # xs))"
    unfolding first_word_append_space by simp
  ultimately have "m ((c # xs) @ CHR '' '' # ys) = None"
    using word_local_D [OF assms, of "(c # xs) @ CHR '' '' # ys" "c # xs"] by blast
  with Cons show ?case by simp
qed

lemma no_match_local_join:
  assumes "word_local m"
  shows "list_all (no_match m) xs \<Longrightarrow> no_match m (join '' '' xs)"
proof (induction "'' ''" xs rule: join.induct)
  case 1
  show ?case by simp
next
  case (2 x)
  then show ?case by simp
next
  case (3 x y ys)
  then show ?case using no_match_local_space [OF assms, of x "join '' '' (y # ys)"] by simp
qed

lemma clean_lines_subset:
  "set (clean_lines vtt_text)
     \<subseteq> strip_markup ` {line \<in> set (split_on nl vtt_text). \<not> skipped line}"
  by (auto simp: clean_lines_first_occurrences set_first_occurrences candidates_def)

lemma no_match_local_clean_vtt:
  assumes "word_local m"
    and "\<forall>line \<in> set (split_on nl vtt_text). \<not> skipped line \<longrightarrow> no_match m (strip_markup line)"
  shows "no_match m (clean_vtt vtt_text)"
proof -
  have "list_all (no_match m) (clean_lines vtt_text)"
    using clean_lines_subset [of vtt_text] assms(2) by (auto simp: list_all_iff)
  then show ?thesis
    unfolding clean_vtt_def by (rule no_match_local_join [OF assms(1)])
qed

section \<open>No annotation token in the output\<close>

lemma no_match_strip_markup:
  "no_match (match_token ''align:'') (strip_markup line)
   \<and> no_match (match_token ''position:'') (strip_markup line)"
proof -
  have ka: "keyword ''align:''" and kp: "keyword ''position:''"
    by (simp_all add: keyword_def is_space_def)
  let ?t2 = "re_sub_del match_c_tag (re_sub_del match_timing_tag line)"
  let ?t3 = "re_sub_del (match_token ''align:'') ?t2"
  let ?t4 = "re_sub_del (match_token ''position:'') ?t3"
  have a3: "no_match (match_token ''align:'') ?t3"
    by (rule no_match_re_sub_del_same [OF ka])
  have a4: "no_match (match_token ''align:'') ?t4"
    by (rule no_match_local_pass [OF word_local_token [OF ka] kp a3])
  have p4: "no_match (match_token ''position:'') ?t4"
    by (rule no_match_re_sub_del_same [OF kp])
  have "strip_markup line = py_strip ?t4"
    by (simp add: strip_markup_def)
  with no_match_local_strip [OF word_local_token [OF ka] a4]
    no_match_local_strip [OF word_local_token [OF kp] p4] show ?thesis by simp
qed

lemma no_match_clean_vtt:
  "no_match (match_token ''align:'') (clean_vtt vtt_text)
   \<and> no_match (match_token ''position:'') (clean_vtt vtt_text)"
proof -
  have ka: "keyword ''align:''" and kp: "keyword ''position:''"
    by (simp_all add: keyword_def is_space_def)
  show ?thesis
    using no_match_local_clean_vtt [OF word_local_token [OF ka], of vtt_text]
      no_match_local_clean_vtt [OF word_local_token [OF kp], of vtt_text]
      no_match_strip_markup
    by blast
qed

section \<open>Matches of the timing tag pattern\<close>

lemma match_seq_split:
  "match_seq ps s = Some r \<Longrightarrow> \<exists>p. s = p @ r \<and> length p = length ps"
proof (induction ps s rule: match_seq.induct)
  case (1 s)
  then show ?case by simp
next
  case (2 p ps)
  then show ?case by simp
next
  case (3 p ps c cs)
  then have "p c" and "match_seq ps cs = Some r"
    by (simp_all split: if_splits)
  with 3 obtain q where "cs = q @ r" and "length q = length ps" by blast
  then have "c # cs = (c # q) @ r \<and> length (c # q) = length (p # ps)" by simp
  then show ?case by blast
qed

lemma match_timing_tag_split:
  assumes "match_timing_tag (c # cs) = Some r"
  shows "length r \<le> length cs \<and> (\<exists>p. c # cs = p @ r)"
proof -
  from assms obtain p where p: "c # cs = p @ r" and l: "length p = 14"
    using match_seq_split [of "lit ''<'' @ hms @ lit ''>''" "c # cs" r]
    by (auto simp: match_timing_tag_def hms_def lit_def)
  from p have "length (c # cs) = length p + length r" by (metis length_append)
  with l have "length r \<le> length cs" by simp
  with p show ?thesis by blast
qed

lemma match_c_tag_Some:
  "match_c_tag s = Some r \<Longrightarrow> s = ''</c>'' @ r \<or> s = ''<c>'' @ r"
  by (auto simp: match_c_tag_def match_seq_lit split: option.splits)

lemma match_c_tag_split:
  assumes "match_c_tag (c # cs) = Some r"
  shows "length r \<le> length cs \<and> (\<exists>p. c # cs = p @ r)"
proof -
  from match_c_tag_Some [OF assms] show ?thesis
  proof
    assume a: "c # cs = ''</c>'' @ r"
    then have "length (c # cs) = length (''</c>'' @ r)" by (rule arg_cong)
    then have "length r \<le> length cs" by simp
    with a show ?thesis by blast
  next
    assume a: "c # cs = ''<c>'' @ r"
    then have "length (c # cs) = length (''<c>'' @ r)" by (rule arg_cong)
    then have "length r \<le> length cs" by simp
    with a show ?thesis by blast
  qed
qed

lemma match_seq_Some:
  "match_seq ps s = Some r \<Longrightarrow> \<exists>p. s = p @ r \<and> list_all2 (\<lambda>f c. f c) ps p"
proof (induction ps s rule: match_seq.induct)
  case (1 s)
  then show ?case by simp
next
  case (2 p ps)
  then show ?case by simp
next
  case (3 p ps c cs)
  then have pc: "p c" and "match_seq ps cs = Some r"
    by (simp_all split: if_splits)
  with 3 obtain q where "cs = q @ r" and "list_all2 (\<lambda>f c. f c) ps q" by blast
  with pc have "c # cs = (c # q) @ r \<and> list_all2 (\<lambda>f c. f c) (p # ps) (c # q)" by simp
  then show ?case by blast
qed

lemma match_seq_append:
  "list_all2 (\<lambda>f c. f c) ps p \<Longrightarrow> match_seq ps (p @ q) = Some q"
  by (induction ps p rule: list_all2_induct) simp_all

lemma timing_classes_no_space:
  "\<forall>f \<in> set (lit ''<'' @ hms @ lit ''>''). \<forall>c. f c \<longrightarrow> \<not> is_space c"
  by (auto simp: hms_def lit_def is_digit_def is_space_def)

lemma word_local_timing: "word_local match_timing_tag"
proof -
  have "match_timing_tag [] = None"
    by (simp add: match_timing_tag_def lit_def)
  moreover have "match_timing_tag b \<noteq> None"
    if "match_timing_tag a \<noteq> None" and "prefix (first_word a) (first_word b)" for a b
  proof -
    let ?ps = "lit ''<'' @ hms @ lit ''>''"
    from that(1) obtain r where "match_seq ?ps a = Some r"
      by (auto simp: match_timing_tag_def)
    then obtain p where a: "a = p @ r" and m: "list_all2 (\<lambda>f c. f c) ?ps p"
      using match_seq_Some by blast
    have "\<not> is_space c" if "c \<in> set p" for c
    proof -
      from that obtain i where i: "i < length p" and c: "p ! i = c"
        by (auto simp: in_set_conv_nth)
      from m i have "(?ps ! i) (p ! i)" and "i < length ?ps"
        by (auto simp: list_all2_conv_all_nth)
      with timing_classes_no_space c show ?thesis
        using nth_mem by blast
    qed
    then have "list_all (\<lambda>c. \<not> is_space c) p"
      by (simp add: list_all_iff)
    then have "first_word a = p @ first_word r"
      unfolding a by (rule first_word_append_all)
    then have "prefix p (first_word b)"
      using that(2) by (auto simp: prefix_def)
    moreover obtain t where "b = first_word b @ t"
      using first_word_decomp by blast
    ultimately obtain q where "b = p @ q"
      by (metis append_assoc prefix_def)
    then have "match_seq ?ps b = Some q"
      using match_seq_append [OF m] by simp
    then show ?thesis by (simp add: match_timing_tag_def)
  qed
  ultimately show ?thesis unfolding word_local_def by blast
qed

section \<open>Timing tags that deletions cannot assemble\<close>

lemma hm_char_not_lt: "hm_char c \<Longrightarrow> c \<noteq> CHR ''<''"
  by (auto simp: hm_char_def is_digit_def)

lemma timing_tag_lt_only: "c \<noteq> CHR ''<'' \<Longrightarrow> match_timing_tag (c # cs) = None"
  by (simp add: match_timing_tag_def lit_def)

lemma c_tag_lt_only: "c \<noteq> CHR ''<'' \<Longrightarrow> match_c_tag (c # cs) = None"
  by (simp add: match_c_tag_def lit_def)

lemma re_sub_del_run:
  assumes "\<And>c cs. c \<noteq> CHR ''<'' \<Longrightarrow> m (c # cs) = None"
  shows "\<forall>c \<in> set h. c \<noteq> CHR ''<'' \<Longrightarrow> re_sub_del m (h @ rest) = h @ re_sub_del m rest"
  using assms by (induction h) simp_all

text \<open>Behind a \<open><\<close> that no \<open><\<close> follows after a run of digits, colons and dots, a
  deletion of tags leaves that run and the character behind it in place.\<close>

lemma run_kept:
  assumes lt: "\<And>c cs. c \<noteq> CHR ''<'' \<Longrightarrow> m (c # cs) = None"
    and safe: "\<not> startswith (dropWhile hm_char cs) ''<''"
  shows "\<exists>h. list_all hm_char h
           \<and> ((cs = h \<and> re_sub_del m cs = h)
              \<or> (\<exists>x t t'. \<not> hm_char x \<and> x \<noteq> CHR ''<'' \<and> cs = h @ x # t
                    \<and> re_sub_del m cs = h @ x # t'))"
proof -
  let ?h = "takeWhile hm_char cs"
  let ?rest = "dropWhile hm_char cs"
  have cs: "cs = ?h @ ?rest" by simp
  have h: "list_all hm_char ?h"
    by (auto simp: list_all_iff dest: set_takeWhileD)
  then have nolt: "\<forall>c \<in> set ?h. c \<noteq> CHR ''<''"
    by (auto simp: list_all_iff hm_char_not_lt)
  have run: "re_sub_del m (?h @ ?rest) = ?h @ re_sub_del m ?rest"
    using re_sub_del_run [of m ?h ?rest] lt nolt by blast
  show ?thesis
  proof (cases ?rest)
    case Nil
    have e: "cs = ?h"
      using Nil by (metis append_Nil2 takeWhile_dropWhile_id)
    have "re_sub_del m (?h @ []) = ?h @ re_sub_del m []"
      using run unfolding Nil .
    then have "re_sub_del m ?h = ?h" by simp
    then have "re_sub_del m cs = ?h" using e by metis
    with e show ?thesis using h by blast
  next
    case (Cons x t)
    have nx: "\<not> hm_char x"
      using hd_dropWhile [of hm_char cs] Cons by simp
    have xl: "x \<noteq> CHR ''<''"
      using safe Cons by (simp add: startswith_def)
    have "re_sub_del m ?rest = x # re_sub_del m t"
      using Cons lt [OF xl] by simp
    then have "re_sub_del m cs = ?h @ x # re_sub_del m t"
      using run cs by simp
    moreover have "cs = ?h @ x # t" using cs Cons by simp
    ultimately show ?thesis using h nx xl by blast
  qed
qed

lemma match_seq_run:
  assumes "\<forall>p \<in> set ps. \<forall>c. p c \<longrightarrow> hm_char c" and "\<forall>c. q c \<longrightarrow> \<not> hm_char c"
    and "\<not> hm_char x"
  shows "list_all hm_char h \<Longrightarrow>
           (match_seq (ps @ [q]) (h @ x # t) \<noteq> None) = (match_seq ps h = Some [] \<and> q x)"
  using assms(1)
proof (induction ps arbitrary: h)
  case Nil
  then show ?case using assms(2) by (cases h) auto
next
  case (Cons p ps)
  show ?case
  proof (cases h)
    case Nil
    have "\<not> p x" using Cons.prems(2) assms(3) by auto
    with Nil show ?thesis by simp
  next
    case (Cons a h')
    have "list_all hm_char h'" using Cons.prems(1) Cons by simp
    moreover have "\<forall>p \<in> set ps. \<forall>c. p c \<longrightarrow> hm_char c" using Cons.prems(2) by simp
    ultimately have "(match_seq (ps @ [q]) (h' @ x # t) \<noteq> None)
        = (match_seq ps h' = Some [] \<and> q x)"
      by (rule Cons.IH)
    with Cons show ?thesis by simp
  qed
qed

lemma match_seq_run_end:
  assumes "\<forall>c. q c \<longrightarrow> \<not> hm_char c"
  shows "list_all hm_char h \<Longrightarrow> match_seq (ps @ [q]) h = None"
proof (induction ps arbitrary: h)
  case Nil
  then show ?case using assms by (cases h) auto
next
  case (Cons p ps)
  then show ?case by (cases h) auto
qed

lemma timing_tag_body:
  "match_timing_tag (CHR ''<'' # s) = match_seq (hms @ [\<lambda>c. c = CHR ''>'']) s"
  by (simp add: match_timing_tag_def lit_def)

lemma hms_classes: "\<forall>p \<in> set hms. \<forall>c. p c \<longrightarrow> hm_char c"
  by (auto simp: hms_def lit_def hm_char_def)

lemma gt_not_hm: "\<forall>c. c = CHR ''>'' \<longrightarrow> \<not> hm_char c"
  by (auto simp: hm_char_def is_digit_def)

lemma tag_step:
  assumes lt: "\<And>c cs. c \<noteq> CHR ''<'' \<Longrightarrow> m (c # cs) = None"
    and safe: "\<not> startswith (dropWhile hm_char cs) ''<''"
  shows "(match_timing_tag (CHR ''<'' # re_sub_del m cs) \<noteq> None)
           = (match_timing_tag (CHR ''<'' # cs) \<noteq> None)
         \<and> \<not> startswith (dropWhile hm_char (re_sub_del m cs)) ''<''"
proof -
  from run_kept [of m cs, OF lt safe] obtain h where h: "list_all hm_char h"
    and alt: "(cs = h \<and> re_sub_del m cs = h)
              \<or> (\<exists>x t t'. \<not> hm_char x \<and> x \<noteq> CHR ''<'' \<and> cs = h @ x # t
                    \<and> re_sub_del m cs = h @ x # t')"
    by blast
  from alt show ?thesis
  proof
    assume "cs = h \<and> re_sub_del m cs = h"
    then have "re_sub_del m cs = cs" by metis
    then show ?thesis using safe by simp
  next
    assume "\<exists>x t t'. \<not> hm_char x \<and> x \<noteq> CHR ''<'' \<and> cs = h @ x # t
                    \<and> re_sub_del m cs = h @ x # t'"
    then obtain x t t' where nx: "\<not> hm_char x" and xl: "x \<noteq> CHR ''<''"
      and cs: "cs = h @ x # t" and r: "re_sub_del m cs = h @ x # t'"
      by blast
    have a: "(match_timing_tag (CHR ''<'' # re_sub_del m cs) \<noteq> None)
           = (match_timing_tag (CHR ''<'' # cs) \<noteq> None)"
      unfolding r timing_tag_body
      by (subst cs) (simp only: match_seq_run [OF hms_classes gt_not_hm nx h])
    have "dropWhile hm_char (h @ x # t') = x # t'"
      using h nx by (induction h) simp_all
    then have b: "\<not> startswith (dropWhile hm_char (re_sub_del m cs)) ''<''"
      unfolding r using xl by (simp add: startswith_def)
    from a b show ?thesis by blast
  qed
qed

lemma tag_safe_append: "tag_safe (p @ r) \<Longrightarrow> tag_safe r"
  by (induction p) auto

lemma timing_pass:
  "tag_safe s \<Longrightarrow>
     tag_safe (re_sub_del match_timing_tag s)
     \<and> no_match match_timing_tag (re_sub_del match_timing_tag s)"
proof (induction s rule: length_induct)
  case (1 s)
  show ?case
  proof (cases s)
    case Nil
    then show ?thesis by simp
  next
    case (Cons c cs)
    show ?thesis
    proof (cases "match_timing_tag (c # cs)")
      case None
      have ih: "tag_safe (re_sub_del match_timing_tag cs)
          \<and> no_match match_timing_tag (re_sub_del match_timing_tag cs)"
        using "1.IH" "1.prems" Cons by simp
      have hd: "match_timing_tag (c # re_sub_del match_timing_tag cs) = None
          \<and> (c = CHR ''<'' \<longrightarrow>
               \<not> startswith (dropWhile hm_char (re_sub_del match_timing_tag cs)) ''<'')"
      proof (cases "c = CHR ''<''")
        case True
        then have "\<not> startswith (dropWhile hm_char cs) ''<''"
          using "1.prems" Cons by simp
        from tag_step [of match_timing_tag cs, OF timing_tag_lt_only this] None True
        show ?thesis by simp
      next
        case False
        then show ?thesis by (simp add: timing_tag_lt_only)
      qed
      from ih hd None show ?thesis unfolding Cons by simp
    next
      case (Some r)
      from match_timing_tag_split [OF Some] obtain p
        where len: "length r \<le> length cs" and p: "c # cs = p @ r" by blast
      have "tag_safe r"
        using "1.prems" Cons p tag_safe_append [of p r] by simp
      moreover have "length r < length s" using len Cons by simp
      ultimately have "tag_safe (re_sub_del match_timing_tag r)
          \<and> no_match match_timing_tag (re_sub_del match_timing_tag r)"
        using "1.IH" by blast
      with Some len show ?thesis unfolding Cons by simp
    qed
  qed
qed

lemma c_pass:
  "tag_safe s \<Longrightarrow> no_match match_timing_tag s \<Longrightarrow>
     no_match match_timing_tag (re_sub_del match_c_tag s)"
proof (induction s rule: length_induct)
  case (1 s)
  show ?case
  proof (cases s)
    case Nil
    then show ?thesis by simp
  next
    case (Cons c cs)
    show ?thesis
    proof (cases "match_c_tag (c # cs)")
      case None
      have ih: "no_match match_timing_tag (re_sub_del match_c_tag cs)"
        using "1.IH" "1.prems" Cons by simp
      have orig: "match_timing_tag (c # cs) = None"
        using "1.prems"(2) Cons by simp
      have hd: "match_timing_tag (c # re_sub_del match_c_tag cs) = None"
      proof (cases "c = CHR ''<''")
        case True
        then have "\<not> startswith (dropWhile hm_char cs) ''<''"
          using "1.prems"(1) Cons by simp
        from tag_step [of match_c_tag cs, OF c_tag_lt_only this] orig True
        show ?thesis by simp
      next
        case False
        then show ?thesis by (simp add: timing_tag_lt_only)
      qed
      from ih hd None show ?thesis unfolding Cons by simp
    next
      case (Some r)
      from match_c_tag_split [OF Some] obtain p
        where len: "length r \<le> length cs" and p: "c # cs = p @ r" by blast
      have "tag_safe r"
        using "1.prems"(1) Cons p tag_safe_append [of p r] by simp
      moreover have "no_match match_timing_tag r"
        using "1.prems"(2) Cons p no_match_append [of match_timing_tag p r] by simp
      moreover have "length r < length s" using len Cons by simp
      ultimately have "no_match match_timing_tag (re_sub_del match_c_tag r)"
        using "1.IH" by blast
      with Some len show ?thesis unfolding Cons by simp
    qed
  qed
qed

lemma no_timing_tag_strip_markup:
  assumes "tag_safe line"
  shows "no_match match_timing_tag (strip_markup line)"
proof -
  have ka: "keyword ''align:''" and kp: "keyword ''position:''"
    by (simp_all add: keyword_def is_space_def)
  let ?t1 = "re_sub_del match_timing_tag line"
  let ?t2 = "re_sub_del match_c_tag ?t1"
  let ?t3 = "re_sub_del (match_token ''align:'') ?t2"
  let ?t4 = "re_sub_del (match_token ''position:'') ?t3"
  from timing_pass [OF assms] have "tag_safe ?t1" and "no_match match_timing_tag ?t1"
    by blast+
  then have "no_match match_timing_tag ?t2" by (rule c_pass)
  then have "no_match match_timing_tag ?t3"
    by (rule no_match_local_pass [OF word_local_timing ka])
  then have "no_match match_timing_tag ?t4"
    by (rule no_match_local_pass [OF word_local_timing kp])
  then have "no_match match_timing_tag (py_strip ?t4)"
    by (rule no_match_local_strip [OF word_local_timing])
  then show ?thesis by (simp add: strip_markup_def)
qed

section \<open>Stripping markup\<close>

text \<open>
  C8, as stated, fails: each substitution runs once over the line, and a deletion can join
  the pieces of a timing tag. The line \<open><00:00:01.000><00:00:<c>01.000>\<close> starts with the
  timing tag \<open><00:00:01.000>\<close>, and its normalization is that very tag.
\<close>

theorem timing_tag_survives:
  "match_timing_tag assembled_tag \<noteq> None
   \<and> take 14 assembled_tag = ''<00:00:01.000>''
   \<and> clean_vtt assembled_tag = ''<00:00:01.000>''
   \<and> match_timing_tag (clean_vtt assembled_tag) \<noteq> None
   \<and> \<not> no_match match_timing_tag (clean_vtt assembled_tag)"
proof -
  have a: "clean_vtt assembled_tag = ''<00:00:01.000>''"
    by code_simp
  have b: "match_timing_tag ''<00:00:01.000>'' \<noteq> None"
    by code_simp
  have c: "match_timing_tag assembled_tag \<noteq> None"
    by code_simp
  have d: "take 14 assembled_tag = ''<00:00:01.000>''"
    by (simp add: assembled_tag_def)
  from a b c d show ?thesis by simp
qed

text \<open>
  C8, amended. For every document the output contains no \<open>align:\<close> and no \<open>position:\<close>
  keyword followed by a non-whitespace character. For every document in which no \<open><\<close> of
  a line that is not skipped is followed, after a possibly empty run of digits, colons and
  dots, by another \<open><\<close>, the output contains no timing tag. Lines with other tags, such
  as \<open><i>\<close> or \<open><v Bob>\<close>, and with a stray \<open><\<close> are among them.
\<close>

theorem clean_vtt_strips_markup:
  "no_match (match_token ''align:'') (clean_vtt vtt_text)
   \<and> no_match (match_token ''position:'') (clean_vtt vtt_text)
   \<and> ((\<forall>line \<in> set (split_on nl vtt_text). \<not> skipped line \<longrightarrow> tag_safe line)
        \<longrightarrow> no_match match_timing_tag (clean_vtt vtt_text))"
proof -
  have "no_match match_timing_tag (clean_vtt vtt_text)"
    if "\<forall>line \<in> set (split_on nl vtt_text). \<not> skipped line \<longrightarrow> tag_safe line"
    using that no_timing_tag_strip_markup
    by (intro no_match_local_clean_vtt [OF word_local_timing]) blast
  with no_match_clean_vtt [of vtt_text] show ?thesis by blast
qed

theorem clean_vtt_strips_markup_witness:
  "list_all (\<lambda>line. skipped line \<or> tag_safe line) (split_on nl styled_caption)
   \<and> \<not> no_match match_timing_tag styled_caption
   \<and> clean_vtt styled_caption = ''<i>Hi</i> you <v Bob>3<5 is true''
   \<and> no_match match_timing_tag (clean_vtt styled_caption)
   \<and> no_match (match_token ''align:'') (clean_vtt styled_caption)
   \<and> no_match (match_token ''position:'') (clean_vtt styled_caption)"
proof -
  have l: "list_all (\<lambda>line. skipped line \<or> tag_safe line) (split_on nl styled_caption)"
    by code_simp
  then have h: "\<forall>line \<in> set (split_on nl styled_caption). \<not> skipped line \<longrightarrow> tag_safe line"
    by (auto simp: list_all_iff)
  have t: "\<not> no_match match_timing_tag styled_caption"
    by code_simp
  have v: "clean_vtt styled_caption = ''<i>Hi</i> you <v Bob>3<5 is true''"
    by code_simp
  from clean_vtt_strips_markup [of styled_caption] h l t v show ?thesis by blast
qed

end
